theory Spec2Isabelle
  imports Main "HOL-Library.Word"
begin

unbundle bit_operations_syntax

section \<open>UART link protocol: CRC engine, frame validator, link session\<close>

text \<open>
  Shallow embedding of \<^verbatim>\<open>uart_comm/main/uart_comm.c\<close>. A \<^verbatim>\<open>uint8_t\<close> is an
  \<open>8 word\<close>, the C \<^verbatim>\<open>int\<close> values that occur (lengths and indices, all far below
  \<open>2^31\<close>) are \<open>int\<close>. A pointer to bytes is the list of the bytes that are addressable
  from it; reading at an index outside that list is a fault, which is a value of the model.
  What the program sends and logs is returned as a list of events, in program order.
\<close>

subsection \<open>Constants\<close>

type_synonym u8 = "8 word"

definition BUF_SIZE :: nat where "BUF_SIZE = 1024"
definition HEADER :: u8 where "HEADER = 0xAA"
definition END :: u8 where "END = 0xBB"
definition HANDSHAKE_REQ :: u8 where "HANDSHAKE_REQ = 0xB1"
definition HANDSHAKE_RESP :: u8 where "HANDSHAKE_RESP = 0x55"
definition ACK :: u8 where "ACK = 0x06"
definition NACK :: u8 where "NACK = 0x15"

subsection \<open>Memory reads and observable events\<close>

datatype fault = OutOfBounds int

datatype event =
    Sent u8                         \<comment> \<open>\<^verbatim>\<open>send_byte(val)\<close>: one byte written to the UART\<close>
  | LogReceived int                 \<comment> \<open>"Received %d bytes"\<close>
  | LogByte int u8                  \<comment> \<open>"Byte[%d] = 0x%02X"\<close>
  | LogHandshake                    \<comment> \<open>"Handshake successful"\<close>
  | LogLengthMismatch u8 int        \<comment> \<open>"Length mismatch! Declared=%d, Received=%d"\<close>
  | LogValidPacket u8 "u8 list"     \<comment> \<open>"Valid packet: %.*s" with the precision and the payload\<close>
  | LogCrcMismatch u8 u8            \<comment> \<open>"CRC mismatch! Got=0x%02X Expected=0x%02X"\<close>

text \<open>\<^verbatim>\<open>data[i]\<close>: inside the addressable bytes it is the byte, outside it is a fault.\<close>

definition rd :: "u8 list \<Rightarrow> int \<Rightarrow> fault + u8" where
  "rd data i = (if 0 \<le> i \<and> i < int (length data) then Inr (data ! nat i) else Inl (OutOfBounds i))"

text \<open>
  The bytes \<^verbatim>\<open>p[0] .. p[n-1]\<close> for \<^verbatim>\<open>p = &data[off]\<close>, as a function that walks over
  \<open>n\<close> bytes from \<open>p\<close> reads them; the first index outside the memory is the fault.
\<close>

definition span :: "u8 list \<Rightarrow> nat \<Rightarrow> nat \<Rightarrow> fault + u8 list" where
  "span data off n =
     (if off + n \<le> length data then Inr (take n (drop off data))
      else Inl (OutOfBounds (int (max off (length data)))))"

definition send_byte :: "u8 \<Rightarrow> event list" where
  "send_byte val = [Sent val]"

subsection \<open>CRC engine: \<^verbatim>\<open>calc_crc8\<close>\<close>

text \<open>
  The body of the inner loop. In C the operands of \<^verbatim>\<open>&\<close>, \<^verbatim>\<open><<\<close> and \<^verbatim>\<open>^\<close> are
  promoted to \<^verbatim>\<open>int\<close>, and the assignment to the \<^verbatim>\<open>uint8_t\<close> keeps the low 8 bits.
\<close>

definition crc_shift :: "u8 \<Rightarrow> u8" where
  "crc_shift crc =
     (if (uint crc) AND 0x80 \<noteq> 0
      then word_of_int ((push_bit 1 (uint crc)) XOR 0x07)
      else word_of_int (push_bit 1 (uint crc)))"

text \<open>\<^verbatim>\<open>for (uint8_t j = 0; j < 8; j++)\<close>, started at \<open>j\<close>.\<close>

function crc_bits :: "nat \<Rightarrow> u8 \<Rightarrow> u8" where
  "crc_bits j crc = (if j < 8 then crc_bits (j + 1) (crc_shift crc) else crc)"
  by pat_completeness auto
termination
  by (relation "measure (\<lambda>(j, crc). 8 - j)") auto

declare crc_bits.simps [simp del]

text \<open>
  \<^verbatim>\<open>for (size_t i = 0; i < len; i++)\<close> over the bytes that are left, with the running
  \<^verbatim>\<open>crc\<close>.
\<close>

fun crc_bytes :: "u8 list \<Rightarrow> u8 \<Rightarrow> u8" where
  "crc_bytes [] crc = crc"
| "crc_bytes (b # bs) crc = crc_bytes bs (crc_bits 0 (crc XOR b))"

text \<open>\<^verbatim>\<open>calc_crc8(data, len)\<close>, on the bytes \<^verbatim>\<open>data[0] .. data[len-1]\<close>.\<close>

definition calc_crc8 :: "u8 list \<Rightarrow> u8" where
  "calc_crc8 data = crc_bytes data 0x00"

subsection \<open>Frame validator: \<^verbatim>\<open>handle_packet\<close>\<close>

text \<open>
  \<open>data\<close> is the memory addressable from the pointer, \<open>len\<close> the number of bytes
  received into it. The \<^verbatim>\<open>||\<close> reads \<^verbatim>\<open>data[len - 1]\<close> only when the header matches.
  \<^verbatim>\<open>total_len - 4\<close> is stored in a \<^verbatim>\<open>uint8_t\<close>, so it wraps below 4.
\<close>

definition handle_packet :: "u8 list \<Rightarrow> int \<Rightarrow> fault + event list" where
  "handle_packet data len =
     (case rd data 0 of Inl f \<Rightarrow> Inl f | Inr first \<Rightarrow>
      if first \<noteq> HEADER then Inr (send_byte NACK) else
      (case rd data (len - 1) of Inl f \<Rightarrow> Inl f | Inr final \<Rightarrow>
       if final \<noteq> END then Inr (send_byte NACK) else
       (case rd data 1 of Inl f \<Rightarrow> Inl f | Inr total_len \<Rightarrow>
        if len \<noteq> uint total_len
        then Inr (LogLengthMismatch total_len len # send_byte NACK) else
        (let payload_len = total_len - 4 in
         (case rd data (2 + uint payload_len) of Inl f \<Rightarrow> Inl f | Inr crc_received \<Rightarrow>
          (case span data 2 (unat payload_len) of Inl f \<Rightarrow> Inl f | Inr payload \<Rightarrow>
           (let crc_calculated = calc_crc8 payload in
            if crc_received = crc_calculated
            then Inr (LogValidPacket payload_len payload # send_byte ACK)
            else Inr (LogCrcMismatch crc_received crc_calculated # send_byte NACK))))))))"

subsection \<open>Link session: the body of the loop of \<^verbatim>\<open>app_main\<close>\<close>

text \<open>The logging loop \<^verbatim>\<open>for (int i = 0; i < len; i++)\<close>, started at \<open>i\<close>.\<close>

function log_bytes :: "u8 list \<Rightarrow> int \<Rightarrow> int \<Rightarrow> fault + event list" where
  "log_bytes buffer len i =
     (if i < len then
        (case rd buffer i of Inl f \<Rightarrow> Inl f | Inr b \<Rightarrow>
         (case log_bytes buffer len (i + 1) of Inl f \<Rightarrow> Inl f | Inr evs \<Rightarrow>
          Inr (LogByte i b # evs)))
      else Inr [])"
  by pat_completeness auto
termination
  by (relation "measure (\<lambda>(buffer, len, i). nat (len - i))") auto

declare log_bytes.simps [simp del]

text \<open>
  One pass through the loop body, after \<^verbatim>\<open>uart_read_bytes\<close> has returned \<open>len\<close> and
  left the received bytes at the front of \<open>buffer\<close>. \<^verbatim>\<open>buffer[0]\<close> is compared with the
  handshake byte only when \<open>len\<close> is 1.
\<close>

definition app_main_iter :: "u8 list \<Rightarrow> int \<Rightarrow> fault + event list" where
  "app_main_iter buffer len =
     (if len > 0 then
        (case (if len = 1 then rd buffer 0 else Inr 0) of Inl f \<Rightarrow> Inl f | Inr b0 \<Rightarrow>
         if len = 1 \<and> b0 = HANDSHAKE_REQ
         then Inr (LogReceived len # send_byte HANDSHAKE_RESP @ [LogHandshake])
         else
          (case log_bytes buffer len 0 of Inl f \<Rightarrow> Inl f | Inr logs \<Rightarrow>
           (case handle_packet buffer len of Inl f \<Rightarrow> Inl f | Inr evs \<Rightarrow>
            Inr (LogReceived len # logs @ evs))))
      else Inr [])"

text \<open>
  The driver call \<^verbatim>\<open>uart_read_bytes\<close> as the session sees it: the received bytes \<open>rx\<close> (at most
  \<open>BUF_SIZE\<close> of them are taken) overwrite the front of the buffer, the rest of the
  buffer keeps what it held, and the number of bytes stored is returned.
\<close>

definition uart_read_bytes :: "u8 list \<Rightarrow> u8 list \<Rightarrow> u8 list \<times> int" where
  "uart_read_bytes buffer rx =
     (let got = take (length buffer) rx
      in (got @ drop (length got) buffer, int (length got)))"

text \<open>
  The loop of \<^verbatim>\<open>app_main\<close> over the successive reads of a finite run: the one buffer is
  reused by every read, and the events of all passes are concatenated.
\<close>

fun app_main_loop :: "u8 list \<Rightarrow> u8 list list \<Rightarrow> fault + event list" where
  "app_main_loop buffer [] = Inr []"
| "app_main_loop buffer (rx # rxs) =
     (case uart_read_bytes buffer rx of (buffer', len) \<Rightarrow>
      (case app_main_iter buffer' len of Inl f \<Rightarrow> Inl f | Inr evs \<Rightarrow>
       (case app_main_loop buffer' rxs of Inl f \<Rightarrow> Inl f | Inr rest \<Rightarrow> Inr (evs @ rest))))"

text \<open>The bytes written to the UART, in order.\<close>

fun sent_bytes :: "event list \<Rightarrow> u8 list" where
  "sent_bytes [] = []"
| "sent_bytes (Sent b # evs) = b # sent_bytes evs"
| "sent_bytes (_ # evs) = sent_bytes evs"

subsection \<open>The reference CRC-8 of the specification\<close>

text \<open>
  The bit-serial CRC-8 with polynomial \<open>0x07\<close> as the specification words it, on
  natural numbers below 256: the accumulator starts at 0; each input byte is XORed into
  it, followed by 8 rounds of a left shift by one that is cut to 8 bits, with \<open>0x07\<close>
  XORed in when the high bit was set before the shift.
\<close>

definition ref_round :: "nat \<Rightarrow> nat" where
  "ref_round acc =
     (if 128 \<le> acc mod 256 then ((2 * acc) mod 256) XOR 7 else (2 * acc) mod 256)"

definition ref_byte :: "nat \<Rightarrow> nat \<Rightarrow> nat" where
  "ref_byte acc b = (ref_round ^^ 8) (acc XOR b)"

definition ref_crc8 :: "nat list \<Rightarrow> nat" where
  "ref_crc8 bs = foldl ref_byte 0 bs"

text \<open>What a run wrote to the UART, or \<open>None\<close> when the run faulted.\<close>

definition responses :: "fault + event list \<Rightarrow> u8 list option" where
  "responses r = (case r of Inl f \<Rightarrow> None | Inr evs \<Rightarrow> Some (sent_bytes evs))"

section \<open>The CRC engine\<close>

subsection \<open>One shift of the accumulator, bit by bit\<close>

lemma high_bit_iff: "(uint (c::u8) AND 0x80 \<noteq> 0) = bit c 7"
proof -
  have "(uint c AND 2 ^ 7 = 0) = (\<not> bit (uint c) 7)"
    by (rule and_exp_eq_0_iff_not_bit)
  then show ?thesis by (simp add: bit_uint_iff)
qed

lemma crc_shift_word: "crc_shift c = push_bit 1 c XOR (if bit c 7 then 0x07 else 0)"
  unfolding crc_shift_def high_bit_iff
  by (simp add: of_int_xor_eq)





subsection \<open>The shift as arithmetic on the unsigned value\<close>

lemma odd_div_128: "x < 256 \<Longrightarrow> odd ((x::nat) div 128) = (128 \<le> x)"
proof (cases "128 \<le> x")
  case True
  assume "x < 256"
  with True have "x div 128 = 1" by (intro div_nat_eqI) simp_all
  with True show ?thesis by simp
next
  case False
  then have "x div 128 = 0" by simp
  with False show ?thesis by simp
qed

lemma high_bit_unat: "bit (c::u8) 7 = (128 \<le> unat c)"
proof -
  have lt: "unat c < 256" using unsigned_less [of c] by simp
  have "bit c 7 = bit (unat c) 7" by (simp add: bit_unsigned_iff)
  also have "\<dots> = odd (unat c div 128)" by (simp add: bit_iff_odd)
  also have "\<dots> = (128 \<le> unat c)" using lt by (rule odd_div_128)
  finally show ?thesis .
qed

lemma unat_shl1: "unat (push_bit 1 (c::u8)) = (2 * unat c) mod 256"
proof -
  have "push_bit 1 c = 2 * c" by (simp add: push_bit_eq_mult)
  then have "unat (push_bit 1 c) = (unat (2::u8) * unat c) mod 2 ^ LENGTH(8)"
    by (simp only: unat_word_ariths)
  then show ?thesis by simp
qed

lemma unat_crc_shift: "unat (crc_shift c) = ref_round (unat c)"
proof -
  have lt: "unat c < 256" using unsigned_less [of c] by simp
  show ?thesis
  proof (cases "bit c 7")
    case True
    then have "crc_shift c = push_bit 1 c XOR 7" by (simp only: crc_shift_word if_True)
    then have "unat (crc_shift c) = unat (push_bit 1 c) XOR unat (7::u8)"
      by (simp only: unsigned_xor_eq)
    then show ?thesis using True lt unfolding unat_shl1 high_bit_unat ref_round_def by simp
  next
    case False
    then have "crc_shift c = push_bit 1 c XOR 0" by (simp only: crc_shift_word if_False)
    then have "unat (crc_shift c) = unat (push_bit 1 c)"
      by (simp only: xor.right_neutral)
    then show ?thesis using False lt unfolding unat_shl1 high_bit_unat ref_round_def by simp
  qed
qed

subsection \<open>The two loops\<close>

lemma crc_bits_funpow: "crc_bits j crc = (crc_shift ^^ (8 - j)) crc"
proof (induction j crc rule: crc_bits.induct)
  case (1 j crc)
  show ?case
  proof (cases "j < 8")
    case True
    then have "8 - j = Suc (8 - (j + 1))" by simp
    then have "(crc_shift ^^ (8 - j)) crc = (crc_shift ^^ (8 - (j + 1))) (crc_shift crc)"
      by (simp only: funpow_Suc_right o_apply)
    with 1 True show ?thesis by (simp add: crc_bits.simps [of j])
  next
    case False
    then show ?thesis by (simp add: crc_bits.simps [of j])
  qed
qed

lemma unat_funpow_shift: "unat ((crc_shift ^^ n) c) = (ref_round ^^ n) (unat c)"
  by (induction n arbitrary: c) (simp_all add: unat_crc_shift)

lemma unat_crc_step: "unat (crc_bits 0 (crc XOR b)) = ref_byte (unat crc) (unat b)"
  by (simp add: crc_bits_funpow unat_funpow_shift ref_byte_def unsigned_xor_eq)

lemma unat_crc_bytes: "unat (crc_bytes bs crc) = foldl ref_byte (unat crc) (map unat bs)"
  by (induction bs arbitrary: crc) (simp_all add: unat_crc_step)







text \<open>
  C2. \<^verbatim>\<open>calc_crc8\<close> computes the reference bit-serial CRC-8 with polynomial \<open>0x07\<close>:
  read as unsigned numbers, its result on any byte sequence is what the specification's
  algorithm gives on the same bytes (accumulator from 0, each byte XORed in, then 8
  rounds of a shift cut to 8 bits with \<open>0x07\<close> XORed in when the high bit was set). Being
  a function of the bytes alone it is deterministic, and on the empty sequence it is
  \<open>0x00\<close>.
\<close>

theorem calc_crc8_is_reference:
  "unat (calc_crc8 bs) = ref_crc8 (map unat bs) \<and> calc_crc8 [] = 0x00"
  by (simp add: calc_crc8_def ref_crc8_def unat_crc_bytes)

section \<open>The frame validator\<close>

lemma rd_inside: "0 \<le> i \<Longrightarrow> i < int (length data) \<Longrightarrow> rd data i = Inr (data ! nat i)"
  by (simp add: rd_def)

lemma rd_Inr_iff: "rd data i = Inr v \<longleftrightarrow> 0 \<le> i \<and> i < int (length data) \<and> v = data ! nat i"
  by (auto simp: rd_def)

lemma span_inside: "off + n \<le> length data \<Longrightarrow> span data off n = Inr (take n (drop off data))"
  by (simp add: span_def)

lemma span_Inr_iff:
  "span data off n = Inr p \<longleftrightarrow> off + n \<le> length data \<and> p = take n (drop off data)"
  by (auto simp: span_def)

text \<open>The three outcomes of the validator, one lemma each.\<close>

lemma handle_packet_bad_frame:
  assumes "0 < len" "len \<le> int (length data)"
    and "data ! 0 \<noteq> HEADER \<or> data ! nat (len - 1) \<noteq> END"
  shows "handle_packet data len = Inr [Sent NACK]"
proof -
  from assms have r0: "rd data 0 = Inr (data ! 0)"
    by (intro rd_inside [of 0 data, simplified]) auto
  from assms have rl: "rd data (len - 1) = Inr (data ! nat (len - 1))"
    by (intro rd_inside) simp_all
  from assms(3) show ?thesis
    by (auto simp: handle_packet_def r0 rl send_byte_def)
qed

lemma handle_packet_bad_length:
  assumes "0 < len" "len \<le> int (length data)"
    and "data ! 0 = HEADER" "data ! nat (len - 1) = END"
    and "uint (data ! 1) \<noteq> len"
  shows "handle_packet data len = Inr [LogLengthMismatch (data ! 1) len, Sent NACK]"
proof -
  have "len \<noteq> 1"
  proof
    assume "len = 1"
    with assms(3,4) have "HEADER = END" by simp
    then show False by (simp add: HEADER_def END_def)
  qed
  with assms have two: "2 \<le> len" by simp
  from assms have "rd data 0 = Inr (data ! 0)"
    by (intro rd_inside [of 0 data, simplified]) auto
  with assms(3) have r0: "rd data 0 = Inr HEADER" by simp
  from assms have rl: "rd data (len - 1) = Inr END"
    using rd_inside [of "len - 1" data] by simp
  from two assms have r1: "rd data 1 = Inr (data ! 1)"
    using rd_inside [of 1 data] by simp
  from assms(5) show ?thesis
    by (auto simp: handle_packet_def r0 rl r1 send_byte_def)
qed

lemma handle_packet_checked:
  assumes "0 < len" "len \<le> int (length data)"
    and "data ! 0 = HEADER" "data ! nat (len - 1) = END"
    and "uint (data ! 1) = len"
    and "2 + unat (data ! 1 - 4) < length data"
  shows "handle_packet data len =
           (if data ! (2 + unat (data ! 1 - 4)) = calc_crc8 (take (unat (data ! 1 - 4)) (drop 2 data))
            then Inr [LogValidPacket (data ! 1 - 4) (take (unat (data ! 1 - 4)) (drop 2 data)), Sent ACK]
            else Inr [LogCrcMismatch (data ! (2 + unat (data ! 1 - 4)))
                        (calc_crc8 (take (unat (data ! 1 - 4)) (drop 2 data))), Sent NACK])"
proof -
  let ?pl = "data ! 1 - 4"
  from assms have "rd data 0 = Inr (data ! 0)"
    by (intro rd_inside [of 0 data, simplified]) auto
  with assms(3) have r0: "rd data 0 = Inr HEADER" by simp
  from assms have rl: "rd data (len - 1) = Inr END"
    using rd_inside [of "len - 1" data] by simp
  from assms(6) have r1: "rd data 1 = Inr (data ! 1)"
    using rd_inside [of 1 data] by simp
  have idx: "nat (2 + uint ?pl) = 2 + unat ?pl"
    by (simp add: nat_add_distrib)
  from assms(6) have rc: "rd data (2 + uint ?pl) = Inr (data ! (2 + unat ?pl))"
    using rd_inside [of "2 + uint ?pl" data] idx by simp
  from assms(6) have sp: "span data 2 (unat ?pl) = Inr (take (unat ?pl) (drop 2 data))"
    by (intro span_inside) simp
  show ?thesis
    unfolding handle_packet_def r0 rl r1 Let_def rc sp sum.case send_byte_def
    using assms(5) by simp
qed

text \<open>From 4 bytes on, a matching length byte puts the payload inside the received bytes.\<close>

lemma payload_len_inside:
  assumes "uint (b::u8) = len" "4 \<le> len"
  shows "unat (b - 4) = nat (len - 4)"
proof -
  have ub: "unat b = nat len"
    unfolding assms(1) [symmetric] by (rule unat_eq_nat_uint)
  with assms(2) have "unat (4::u8) \<le> unat b" by simp
  then have "(4::u8) \<le> b" by (simp only: word_le_nat_alt)
  then have "unat (b - 4) = unat b - unat (4::u8)" by (rule unat_sub)
  also have "\<dots> = nat len - 4" by (simp add: ub)
  also have "\<dots> = nat (len - 4)" using assms(2) by simp
  finally show ?thesis .
qed

lemma responses_Inr [simp]: "responses (Inr evs) = Some (sent_bytes evs)"
  by (simp add: responses_def)

lemma responses_Inl [simp]: "responses (Inl f) = None"
  by (simp add: responses_def)

lemma ACK_neq_NACK: "ACK \<noteq> NACK"
  by (simp add: ACK_def NACK_def)

lemma ack_steps:
  assumes "responses (handle_packet data len) = Some [ACK]"
  shows "rd data 0 = Inr HEADER \<and> rd data (len - 1) = Inr END \<and>
         (\<exists>t. rd data 1 = Inr t \<and> uint t = len \<and>
           (\<exists>p. rd data (2 + uint (t - 4)) = Inr (calc_crc8 p) \<and>
                 span data 2 (unat (t - 4)) = Inr p))"
  using assms unfolding handle_packet_def Let_def send_byte_def
  by (auto simp: ACK_neq_NACK ACK_neq_NACK [symmetric] split: sum.splits if_splits)

lemma ack_inversion:
  assumes "responses (handle_packet data len) = Some [ACK]"
  shows "0 < len \<and> len \<le> int (length data) \<and> data ! 0 = HEADER \<and> data ! nat (len - 1) = END
         \<and> uint (data ! 1) = len \<and> 2 + unat (data ! 1 - 4) < length data
         \<and> data ! (2 + unat (data ! 1 - 4)) = calc_crc8 (take (unat (data ! 1 - 4)) (drop 2 data))"
proof -
  from ack_steps [OF assms] obtain t p where
    r0: "rd data 0 = Inr HEADER" and rl: "rd data (len - 1) = Inr END" and
    r1: "rd data 1 = Inr t" and len: "uint t = len" and
    rc: "rd data (2 + uint (t - 4)) = Inr (calc_crc8 p)" and
    sp: "span data 2 (unat (t - 4)) = Inr p"
    by blast
  from r0 have h: "data ! 0 = HEADER" by (simp add: rd_Inr_iff)
  from rl have e: "0 < len \<and> len \<le> int (length data) \<and> data ! nat (len - 1) = END"
    by (simp add: rd_Inr_iff)
  from r1 have t: "t = data ! 1" by (simp add: rd_Inr_iff)
  have idx: "nat (2 + uint (t - 4)) = 2 + unat (t - 4)"
    by (simp add: nat_add_distrib)
  from rc have "2 + uint (t - 4) < int (length data)" by (simp add: rd_Inr_iff)
  then have "int (2 + unat (t - 4)) < int (length data)" unfolding uint_nat by simp
  then have inside: "2 + unat (t - 4) < length data" by (simp only: of_nat_less_iff)
  from rc have "calc_crc8 p = data ! nat (2 + uint (t - 4))" by (simp add: rd_Inr_iff)
  then have c: "data ! (2 + unat (t - 4)) = calc_crc8 p" by (simp only: idx)
  from sp have p: "p = take (unat (t - 4)) (drop 2 data)" by (simp add: span_Inr_iff)
  from h e len inside c show ?thesis unfolding p t by simp
qed

text \<open>
  C1. Round trip: for a payload \<open>p\<close> and a length byte \<open>l\<close> whose value is
  \<open>4 + length p\<close>, the packet \<open>[0xAA, l, p..., calc_crc8 p, 0xBB]\<close> is acknowledged:
  the validator logs the payload and sends \<open>ACK\<close>, whatever the buffer holds behind the
  packet.
\<close>

theorem round_trip:
  assumes "unat l = 4 + length p"
  shows "handle_packet (HEADER # l # p @ calc_crc8 p # END # rest) (int (4 + length p))
           = Inr [LogValidPacket (l - 4) p, Sent ACK]"
proof -
  let ?data = "HEADER # l # p @ calc_crc8 p # END # rest"
  let ?len = "int (4 + length p)"
  have ul: "uint l = ?len"
    using assms by (simp add: uint_nat)
  then have pl: "unat (l - 4) = length p"
    using payload_len_inside [of l ?len] by simp
  have last: "?data ! nat (?len - 1) = END"
  proof -
    have "nat (?len - 1) = Suc (Suc (length p + 1))" by simp
    then show ?thesis by (simp only: nth_Cons_Suc nth_append_length_plus) simp
  qed
  have crc: "?data ! (2 + unat (?data ! 1 - 4)) = calc_crc8 p"
    by (simp add: pl)
  have payload: "take (unat (?data ! 1 - 4)) (drop 2 ?data) = p"
    by (simp add: pl)
  have "handle_packet ?data ?len =
          (if ?data ! (2 + unat (?data ! 1 - 4)) = calc_crc8 (take (unat (?data ! 1 - 4)) (drop 2 ?data))
            then Inr [LogValidPacket (?data ! 1 - 4) (take (unat (?data ! 1 - 4)) (drop 2 ?data)), Sent ACK]
            else Inr [LogCrcMismatch (?data ! (2 + unat (?data ! 1 - 4)))
                        (calc_crc8 (take (unat (?data ! 1 - 4)) (drop 2 ?data))), Sent NACK])"
  proof (rule handle_packet_checked)
    show "0 < ?len" by simp
    show "?len \<le> int (length ?data)" by simp
    show "?data ! 0 = HEADER" by simp
    show "?data ! nat (?len - 1) = END" by (rule last)
    show "uint (?data ! 1) = ?len" using ul by simp
    show "2 + unat (?data ! 1 - 4) < length ?data" by (simp add: pl)
  qed
  then show ?thesis
    unfolding crc payload by simp
qed

lemma crc_Hi: "calc_crc8 [0x48, 0x69] = 0xEB"
  by code_simp

text \<open>The example of the specification: payload "Hi", length byte 6, checksum \<open>0xEB\<close>.\<close>

theorem round_trip_witness:
  "unat (6::u8) = 4 + length [0x48, 0x69 :: u8] \<and>
   handle_packet [0xAA, 0x06, 0x48, 0x69, 0xEB, 0xBB] 6 = Inr [LogValidPacket 2 [0x48, 0x69], Sent 0x06]"
  using round_trip [of 6 "[0x48, 0x69]" "[]"]
  by (simp add: crc_Hi HEADER_def END_def ACK_def)

lemma log_bytes_single: "log_bytes (b # rest) 1 0 = Inr [LogByte 0 b]"
  by (simp add: log_bytes.simps [of _ 1 0] log_bytes.simps [of _ 1 1] rd_def)

lemma handle_packet_single: "handle_packet (b # rest) 1 = Inr [Sent NACK]"
  using handle_packet_bad_frame [of 1 "b # rest"]
  by (auto simp: HEADER_def END_def)

text \<open>
  C3. Dispatch of a one-byte read: when the byte is \<open>HANDSHAKE_REQ\<close> the session logs the
  read, sends \<open>HANDSHAKE_RESP\<close> and logs the handshake, and nothing of the validator
  runs (the handshake test comes first); any other single byte is logged and handed to the
  validator, which answers \<open>NACK\<close>.
\<close>

theorem dispatch_single_byte:
  "(b = HANDSHAKE_REQ \<longrightarrow>
      app_main_iter (b # rest) 1 = Inr [LogReceived 1, Sent HANDSHAKE_RESP, LogHandshake]) \<and>
   (b \<noteq> HANDSHAKE_REQ \<longrightarrow>
      handle_packet (b # rest) 1 = Inr [Sent NACK] \<and>
      app_main_iter (b # rest) 1 = Inr ([LogReceived 1, LogByte 0 b] @ [Sent NACK]))"
  by (simp add: app_main_iter_def rd_def send_byte_def log_bytes_single handle_packet_single)

theorem dispatch_single_byte_witness:
  "app_main_iter [0xB1] 1 = Inr [LogReceived 1, Sent 0x55, LogHandshake] \<and>
   (0x01 :: u8) \<noteq> 0xB1 \<and> handle_packet [0x01] 1 = Inr [Sent 0x15] \<and>
   app_main_iter [0x01] 1 = Inr [LogReceived 1, LogByte 0 0x01, Sent 0x15]"
  using dispatch_single_byte [of "0xB1" "[]"] dispatch_single_byte [of "0x01" "[]"]
  by (simp add: HANDSHAKE_REQ_def HANDSHAKE_RESP_def NACK_def)

text \<open>
  C6. Framing check: a received span (at least one byte, inside the buffer) whose first
  byte is not \<open>HEADER\<close> or whose last byte is not \<open>END\<close> is answered with \<open>NACK\<close> and
  nothing else, whatever the other bytes are.
\<close>

theorem framing_check:
  assumes "0 < len" and "len \<le> int (length data)"
    and "data ! 0 \<noteq> HEADER \<or> data ! nat (len - 1) \<noteq> END"
  shows "handle_packet data len = Inr [Sent NACK]"
  using assms by (rule handle_packet_bad_frame)

theorem framing_check_witness:
  "(0::int) < 6 \<and> (6::int) \<le> int (length [0xAB, 0x06, 0x48, 0x69, 0xEB, 0xBB :: u8]) \<and>
   [0xAB, 0x06, 0x48, 0x69, 0xEB, 0xBB] ! 0 \<noteq> HEADER \<and>
   [0xAA, 0x06, 0x48, 0x69, 0xEB, 0xBA] ! nat (6 - 1) \<noteq> END \<and>
   handle_packet [0xAB, 0x06, 0x48, 0x69, 0xEB, 0xBB] 6 = Inr [Sent 0x15] \<and>
   handle_packet [0xAA, 0x06, 0x48, 0x69, 0xEB, 0xBA] 6 = Inr [Sent 0x15]"
  using framing_check [of 6 "[0xAB, 0x06, 0x48, 0x69, 0xEB, 0xBB]"]
        framing_check [of 6 "[0xAA, 0x06, 0x48, 0x69, 0xEB, 0xBA]"]
  by (simp add: HEADER_def END_def NACK_def)

text \<open>
  C7. Length check: a received span that passes the framing check and whose length byte
  \<open>data[1]\<close> differs from the number of bytes received is answered with \<open>NACK\<close>, after
  a diagnostic event that carries the declared and the received length.
\<close>

theorem length_check:
  assumes "0 < len" and "len \<le> int (length data)"
    and "data ! 0 = HEADER" and "data ! nat (len - 1) = END"
    and "uint (data ! 1) \<noteq> len"
  shows "handle_packet data len = Inr [LogLengthMismatch (data ! 1) len, Sent NACK]"
  using assms by (rule handle_packet_bad_length)

theorem length_check_witness:
  "(0::int) < 6 \<and> (6::int) \<le> int (length [0xAA, 0x07, 0x48, 0x69, 0xEB, 0xBB :: u8]) \<and>
   [0xAA, 0x07, 0x48, 0x69, 0xEB, 0xBB] ! 0 = HEADER \<and>
   [0xAA, 0x07, 0x48, 0x69, 0xEB, 0xBB] ! nat (6 - 1) = END \<and>
   uint ([0xAA, 0x07, 0x48, 0x69, 0xEB, 0xBB :: u8] ! 1) \<noteq> 6 \<and>
   handle_packet [0xAA, 0x07, 0x48, 0x69, 0xEB, 0xBB] 6 = Inr [LogLengthMismatch 7 6, Sent 0x15]"
  using length_check [of 6 "[0xAA, 0x07, 0x48, 0x69, 0xEB, 0xBB]"]
  by (simp add: HEADER_def END_def NACK_def)

section \<open>Error detection\<close>





lemma valid_Hi: "responses (handle_packet [0xAA, 0x06, 0x48, 0x69, 0xEB, 0xBB] 6) = Some [ACK]"
  by code_simp


section \<open>The link session\<close>

lemma log_bytes_ok:
  "0 \<le> i \<Longrightarrow> len \<le> int (length buffer) \<Longrightarrow>
     \<exists>logs. log_bytes buffer len i = Inr logs \<and> sent_bytes logs = []"
proof (induction buffer len i rule: log_bytes.induct)
  case (1 buffer len i)
  show ?case
  proof (cases "i < len")
    case True
    with 1(2,3) have r: "rd buffer i = Inr (buffer ! nat i)" by (intro rd_inside) simp_all
    from 1(1) [OF True r] 1(2,3) obtain logs where
      "log_bytes buffer len (i + 1) = Inr logs" "sent_bytes logs = []" by auto
    with True r show ?thesis by (simp add: log_bytes.simps [of buffer len i])
  next
    case False
    then show ?thesis by (simp add: log_bytes.simps [of buffer len i])
  qed
qed

lemma u8_le_255: "unat (b::u8) \<le> 255"
  using unsigned_less [of b, where ?'a = nat] by simp

lemma handle_packet_responds:
  assumes "0 < len" "len \<le> int (length data)" "258 \<le> length data"
  shows "responses (handle_packet data len) = Some [ACK] \<or>
         responses (handle_packet data len) = Some [NACK]"
proof (cases "data ! 0 \<noteq> HEADER \<or> data ! nat (len - 1) \<noteq> END")
  case True
  with assms(1,2) have "handle_packet data len = Inr [Sent NACK]"
    by (rule handle_packet_bad_frame)
  then show ?thesis by simp
next
  case framed: False
  show ?thesis
  proof (cases "uint (data ! 1) = len")
    case False
    with assms(1,2) framed
    have "handle_packet data len = Inr [LogLengthMismatch (data ! 1) len, Sent NACK]"
      by (intro handle_packet_bad_length) simp_all
    then show ?thesis by simp
  next
    case True
    have "2 + unat (data ! 1 - 4) < length data"
      using assms(3) u8_le_255 [of "data ! 1 - 4"] by simp
    with assms(1,2) framed True show ?thesis
      by (subst (1 2) handle_packet_checked) simp_all
  qed
qed

text \<open>
  C9. One response per non-empty read: with the 1024-byte buffer of \<open>app_main\<close> and a
  read of 1 to 1024 bytes, one pass of the loop never faults and writes exactly one byte:
  \<open>HANDSHAKE_RESP\<close> when the read is the single byte \<open>HANDSHAKE_REQ\<close>, and otherwise
  the one byte the validator writes, which is \<open>ACK\<close> or \<open>NACK\<close>.
\<close>

theorem one_response_per_read:
  assumes "length buffer = BUF_SIZE" and "0 < len" and "len \<le> int BUF_SIZE"
  shows "responses (app_main_iter buffer len) =
           (if len = 1 \<and> buffer ! 0 = HANDSHAKE_REQ then Some [HANDSHAKE_RESP]
            else responses (handle_packet buffer len)) \<and>
         (responses (handle_packet buffer len) = Some [ACK] \<or>
          responses (handle_packet buffer len) = Some [NACK])"
proof -
  from assms have len: "len \<le> int (length buffer)" and big: "258 \<le> length buffer"
    by (simp_all add: BUF_SIZE_def)
  from assms(2) len big have hp: "responses (handle_packet buffer len) = Some [ACK] \<or>
         responses (handle_packet buffer len) = Some [NACK]"
    by (rule handle_packet_responds)
  then obtain evs where evs: "handle_packet buffer len = Inr evs"
    by (cases "handle_packet buffer len") simp_all
  from log_bytes_ok [of 0 len buffer] len obtain logs where
    logs: "log_bytes buffer len 0 = Inr logs" "sent_bytes logs = []" by auto
  from big have r0: "rd buffer 0 = Inr (buffer ! 0)" by (auto simp: rd_def)
  have sent_append: "\<And>xs ys. sent_bytes (xs @ ys) = sent_bytes xs @ sent_bytes ys"
  proof -
    fix xs ys show "sent_bytes (xs @ ys) = sent_bytes xs @ sent_bytes ys"
      by (induction xs rule: sent_bytes.induct) simp_all
  qed
  have "app_main_iter buffer len =
           (if len = 1 \<and> buffer ! 0 = HANDSHAKE_REQ
            then Inr [LogReceived len, Sent HANDSHAKE_RESP, LogHandshake]
            else Inr (LogReceived len # logs @ evs))"
    unfolding app_main_iter_def logs evs r0 send_byte_def using assms(2) by auto
  then have "responses (app_main_iter buffer len) =
           (if len = 1 \<and> buffer ! 0 = HANDSHAKE_REQ then Some [HANDSHAKE_RESP]
            else responses (handle_packet buffer len))"
    by (simp add: evs logs sent_append)
  with hp show ?thesis by simp
qed

lemma valid_Hi_buffer:
  "responses (handle_packet ([0xAA, 0x06, 0x48, 0x69, 0xEB, 0xBB] @ replicate 1018 0) 6) = Some [ACK]"
  by code_simp

theorem one_response_per_read_witness:
  "length ([0xAA, 0x06, 0x48, 0x69, 0xEB, 0xBB] @ replicate 1018 (0::u8)) = BUF_SIZE \<and>
   (0::int) < 6 \<and> 6 \<le> int BUF_SIZE \<and>
   responses (app_main_iter ([0xAA, 0x06, 0x48, 0x69, 0xEB, 0xBB] @ replicate 1018 0) 6) = Some [ACK] \<and>
   length (0xB1 # replicate 1023 (0::u8)) = BUF_SIZE \<and> (0::int) < 1 \<and> 1 \<le> int BUF_SIZE \<and>
   responses (app_main_iter (0xB1 # replicate 1023 0) 1) = Some [HANDSHAKE_RESP]"
  using one_response_per_read [of "[0xAA, 0x06, 0x48, 0x69, 0xEB, 0xBB] @ replicate 1018 0" 6]
        one_response_per_read [of "0xB1 # replicate 1023 0" 1] valid_Hi_buffer
  by (simp add: BUF_SIZE_def HANDSHAKE_REQ_def)

section \<open>The size ceiling\<close>

lemma uint_u8_le_255: "uint (b::u8) \<le> 255"
  using uint_lt2p [of b] by simp

text \<open>
  What holds of the size ceiling on the code as it is: a received span of more than 255
  bytes is answered with \<open>NACK\<close>, since the length byte cannot equal its length, so an
  acknowledged span has at most 255 bytes; and when the span has the 4 bytes of a frame,
  its payload is the \<open>len - 4\<close> bytes behind the length byte, at most 251 of them.
\<close>

lemma size_ceiling:
  "(255 < len \<and> len \<le> int (length data) \<longrightarrow>
      responses (handle_packet data len) = Some [NACK]) \<and>
   (responses (handle_packet data len) = Some [ACK] \<longrightarrow>
      len \<le> 255 \<and>
      (4 \<le> len \<longrightarrow>
         handle_packet data len =
           Inr [LogValidPacket (data ! 1 - 4) (take (nat (len - 4)) (drop 2 data)), Sent ACK] \<and>
         length (take (nat (len - 4)) (drop 2 data)) = nat (len - 4) \<and>
         nat (len - 4) \<le> 251))"
proof (intro conjI impI)
  assume big: "255 < len \<and> len \<le> int (length data)"
  have small: "uint (data ! 1) \<le> 255"
    by (rule uint_u8_le_255)
  show "responses (handle_packet data len) = Some [NACK]"
  proof (cases "data ! 0 \<noteq> HEADER \<or> data ! nat (len - 1) \<noteq> END")
    case True
    with big have "handle_packet data len = Inr [Sent NACK]"
      by (intro handle_packet_bad_frame) simp_all
    then show ?thesis by simp
  next
    case False
    with big small
    have "handle_packet data len = Inr [LogLengthMismatch (data ! 1) len, Sent NACK]"
      by (intro handle_packet_bad_length) simp_all
    then show ?thesis by simp
  qed
next
  assume ack: "responses (handle_packet data len) = Some [ACK]"
  from ack_inversion [OF ack] have t: "uint (data ! 1) = len" by simp
  have "uint (data ! 1) \<le> 255"
    by (rule uint_u8_le_255)
  with t show le: "len \<le> 255" by simp
  {
    assume four: "4 \<le> len"
    with t have n: "unat (data ! 1 - 4) = nat (len - 4)" by (rule payload_len_inside)
    from ack_inversion [OF ack] have
      inv: "0 < len" "len \<le> int (length data)" "data ! 0 = HEADER" "data ! nat (len - 1) = END"
        "2 + unat (data ! 1 - 4) < length data"
        "data ! (2 + unat (data ! 1 - 4)) = calc_crc8 (take (unat (data ! 1 - 4)) (drop 2 data))"
      by simp_all
    have "handle_packet data len =
        Inr [LogValidPacket (data ! 1 - 4) (take (unat (data ! 1 - 4)) (drop 2 data)), Sent ACK]"
      unfolding handle_packet_checked [OF inv(1-4) t inv(5)] using inv(6) by simp
    then show "handle_packet data len =
        Inr [LogValidPacket (data ! 1 - 4) (take (nat (len - 4)) (drop 2 data)), Sent ACK]"
      by (simp only: n)
    from inv(5) show "length (take (nat (len - 4)) (drop 2 data)) = nat (len - 4)"
      unfolding n by simp
    from le show "nat (len - 4) \<le> 251" by simp
  }
qed


lemma size_ceiling_example:
  "(255::int) < 256 \<and> (256::int) \<le> int (length (0xAA # 0x00 # replicate 253 (0::u8) @ [0xBB])) \<and>
   responses (handle_packet (0xAA # 0x00 # replicate 253 0 @ [0xBB]) 256) = Some [NACK] \<and>
   responses (handle_packet [0xAA, 0x06, 0x48, 0x69, 0xEB, 0xBB] 6) = Some [ACK] \<and>
   (6::int) \<le> 255 \<and> (4::int) \<le> 6 \<and>
   handle_packet [0xAA, 0x06, 0x48, 0x69, 0xEB, 0xBB] 6 = Inr [LogValidPacket 2 [0x48, 0x69], Sent ACK] \<and>
   nat (6 - 4) \<le> 251"
  using size_ceiling [of 256 "0xAA # 0x00 # replicate 253 0 @ [0xBB]"]
        size_ceiling [of 6 "[0xAA, 0x06, 0x48, 0x69, 0xEB, 0xBB]"] valid_Hi
  by simp

section \<open>Received spans shorter than a frame\<close>

lemma short_span_nack:
  assumes "0 < len" "len < 4" "len \<le> int (length data)"
    and "\<not> (len = 3 \<and> data ! 0 = HEADER \<and> data ! 1 = 3 \<and> data ! 2 = END)"
  shows "responses (handle_packet data len) = Some [NACK]"
proof (cases "data ! 0 \<noteq> HEADER \<or> data ! nat (len - 1) \<noteq> END")
  case True
  with assms(1,3) have "handle_packet data len = Inr [Sent NACK]"
    by (rule handle_packet_bad_frame)
  then show ?thesis by simp
next
  case framed: False
  have "uint (data ! 1) \<noteq> len"
  proof
    assume t: "uint (data ! 1) = len"
    from assms(1,2) consider "len = 1" | "len = 2" | "len = 3" by linarith
    then show False
    proof cases
      case 1
      with framed have "HEADER = END" by simp
      then show False by (simp add: HEADER_def END_def)
    next
      case 2
      with framed have "data ! 1 = END" by simp
      with t 2 show False by (simp add: END_def)
    next
      case 3
      with framed have "data ! 0 = HEADER" "data ! 2 = END" by simp_all
      moreover from t 3 have "data ! 1 = 3"
        by (metis word_of_int_uint word_of_int_numeral)
      ultimately show False using assms(4) 3 by simp
    qed
  qed
  with assms(1,3) framed
  have "handle_packet data len = Inr [LogLengthMismatch (data ! 1) len, Sent NACK]"
    by (intro handle_packet_bad_length) simp_all
  then show ?thesis by simp
qed

text \<open>
  C4. The three received bytes \<open>AA 03 BB\<close> pass the framing and the length check, and
  there is no test that the span has the 4 bytes of an empty frame: \<open>total_len - 4\<close> wraps
  to 255, and the validator reads \<open>data[257]\<close> and the 255 bytes from \<open>data[2]\<close> on. When
  the three bytes are all the memory there is, that read is out of bounds; in a larger
  buffer it reads what earlier reads left there, and acknowledges the span when that
  matches.
\<close>

theorem short_span_reads_outside:
  "handle_packet [0xAA, 0x03, 0xBB] 3 = Inl (OutOfBounds 257) \<and>
   handle_packet ([0xAA, 0x03, 0xBB] @ replicate 254 0 @ [0x28] @ replicate 766 0) 3 =
     Inr [LogValidPacket 255 (0xBB # replicate 254 0), Sent ACK]"
  by code_simp

text \<open>
  C5. A run of \<open>app_main\<close> in which a length byte below 4 is acknowledged: a first read of
  258 bytes (rejected) leaves \<open>0x28\<close> at index 257 of the buffer, then the three bytes
  \<open>AA 03 BB\<close> arrive. The declared length 3 equals the received length, the payload
  length wraps to 255, the checksum of the 255 bytes from index 2 is \<open>0x28\<close>, and the
  session answers \<open>ACK\<close>.
\<close>

theorem underflow_acknowledged:
  "responses (app_main_loop (replicate BUF_SIZE 0) [replicate 257 0 @ [0x28], [0xAA, 0x03, 0xBB]])
     = Some [NACK, ACK]"
  by code_simp

text \<open>
  C10. An acknowledged payload of more than 251 bytes: with \<open>0x28\<close> left at index 257
  of the 1024-byte buffer by an earlier read, the pass of the loop for the three received
  bytes \<open>AA 03 BB\<close> logs them, computes the payload length \<open>3 - 4 = 255\<close> in the
  \<open>uint8_t\<close>, logs a valid packet with that precision and a payload of 255 bytes, and
  sends \<open>ACK\<close>.
\<close>

theorem acknowledged_payload_of_255:
  "app_main_iter ([0xAA, 0x03, 0xBB] @ replicate 254 0 @ [0x28] @ replicate 766 0) 3 =
     Inr [LogReceived 3, LogByte 0 0xAA, LogByte 1 0x03, LogByte 2 0xBB,
          LogValidPacket 255 (0xBB # replicate 254 0), Sent ACK] \<and>
   length ([0xAA, 0x03, 0xBB] @ replicate 254 (0::u8) @ [0x28] @ replicate 766 0) = BUF_SIZE \<and>
   length (0xBB # replicate 254 (0::u8)) = 255"
  by code_simp

end
